theory Spec2Isabelle
  imports Main
begin

section \<open>stream.hpp: data model\<close>

text \<open>
  The library walks a half-open iterator range \<open>[begin, end)\<close> over the storage of a
  container. An iterator is modelled as a position (a \<open>nat\<close>) in the sequence in
  which the backing container is traversed; the storage is that sequence. Dereferencing
  or advancing an iterator that is not inside the storage is undefined behaviour in C++;
  the model returns \<open>Inl UndefinedBehaviour\<close> at that point instead of a value. The
  source raises no exception and has no other failure path.
\<close>

datatype error = UndefinedBehaviour

text \<open>
  \<open>class Stream\<close>: the two protected iterator members. The storage they point into is
  not a member in C++ (it is the caller's collection, or the \<open>mapped\<close>/\<open>filtered\<close>
  member of a materializing stage); the record carries it so that a position can be read.
\<close>

record 'a Stream =
  storage :: "'a list"
  begin_iter :: nat
  end_iter :: nat

text \<open>\<open>explicit Stream(TCollection& collection)\<close>: begin and end of the collection.\<close>

definition Stream_of :: "'a list \<Rightarrow> 'a Stream" where
  "Stream_of collection =
     \<lparr>storage = collection, begin_iter = 0, end_iter = length collection\<rparr>"

text \<open>
  \<open>struct Collection\<close>: the container adapter. The template and its two specialisations
  are chosen by the container type at compile time; the model passes the adapter as a
  value. \<open>fresh\<close> is the default-constructed container (\<open>RCollection result;\<close>),
  \<open>insert_value\<close> is the static member \<open>insert\<close>.
\<close>

record ('c, 'a) Collection =
  fresh :: 'c
  insert_value :: "'c \<Rightarrow> 'a \<Rightarrow> 'c"

text \<open>Primary template: \<open>collection.emplace_back(value)\<close> on a \<open>std::vector\<close>.\<close>

definition Collection_vector :: "('a list, 'a) Collection" where
  "Collection_vector = \<lparr>fresh = [], insert_value = (\<lambda>collection v. collection @ [v])\<rparr>"

text \<open>
  \<open>Collection<std::unordered_set<T>>\<close>: \<open>collection.insert(value)\<close>. The traversal
  order of a hash set is unspecified, so as a target of \<open>collect\<close> the container is
  modelled by the set of its elements.
\<close>

definition Collection_unordered_set :: "('a set, 'a) Collection" where
  "Collection_unordered_set = \<lparr>fresh = {}, insert_value = (\<lambda>collection v. insert v collection)\<rparr>"

text \<open>
  \<open>Collection<std::set<T>>\<close>: \<open>collection.insert(value)\<close>. A \<open>std::set\<close> is modelled by
  the strictly ascending list in which it is traversed; inserting a key that is present
  leaves the set as it is.
\<close>

definition Collection_set :: "('a::linorder list, 'a) Collection" where
  "Collection_set =
     \<lparr>fresh = [],
      insert_value = (\<lambda>collection v. if v \<in> set collection then collection else insort v collection)\<rparr>"

text \<open>
  A \<open>std::unordered_set\<close> as the source of a stage is walked in its traversal order, so
  there it is modelled by the list of its keys in that order. \<open>insert\<close> keeps the keys
  unique and adds the new key to those present; where the key appears in the traversal
  belongs to the hash table of the standard library, not to \<open>stream.hpp\<close>, and is left
  open: \<open>unordered_insertion\<close> holds of every adapter that inserts in this way.
\<close>

definition unordered_insertion :: "('a list, 'a) Collection \<Rightarrow> bool" where
  "unordered_insertion H \<longleftrightarrow>
     fresh H = [] \<and>
     (\<forall>c v. distinct c \<longrightarrow>
        distinct (insert_value H c v) \<and> set (insert_value H c v) = insert v (set c))"

text \<open>
  One such hash set. libstdc++ links a node whose bucket is empty in at the head of its
  node list, so keys that each fall into a bucket of their own, with no rehash in between
  (a few small \<open>int\<close>s), are traversed in the reverse of their insertion order.
\<close>

definition Collection_unordered_set_front :: "('a list, 'a) Collection" where
  "Collection_unordered_set_front =
     \<lparr>fresh = [],
      insert_value = (\<lambda>collection v. if v \<in> set collection then collection else v # collection)\<rparr>"

text \<open>Sequencing of two steps of a pipeline; undefined behaviour ends the pipeline.\<close>

definition and_then :: "error + 'a \<Rightarrow> ('a \<Rightarrow> error + 'b) \<Rightarrow> error + 'b" where
  "and_then r k = (case r of Inl err \<Rightarrow> Inl err | Inr v \<Rightarrow> k v)"

section \<open>Terminal operations of Stream\<close>

text \<open>
  The loop of both overloads of \<open>reduce\<close>:
  \<open>for (; iter != end; ++iter) { acc = reducer(acc, *iter); }\<close>.
\<close>

function reduce_loop :: "('r \<Rightarrow> 'a \<Rightarrow> 'r) \<Rightarrow> 'a list \<Rightarrow> nat \<Rightarrow> nat \<Rightarrow> 'r \<Rightarrow> error + 'r" where
  "reduce_loop reducer st iter e acc =
     (if iter = e then Inr acc
      else if iter < length st
        then reduce_loop reducer st (Suc iter) e (reducer acc (st ! iter))
      else Inl UndefinedBehaviour)"
  by pat_completeness auto
termination
  by (relation "measure (\<lambda>(reducer, st, iter, e, acc). length st - iter)") auto

declare reduce_loop.simps [simp del]

text \<open>
  \<open>Value reduce(FReducer reducer)\<close>: \<open>Value acc = *iter++;\<close> reads the element at
  \<open>begin\<close> without comparing \<open>begin\<close> with \<open>end\<close>, then runs the loop from the next
  position.
\<close>

definition Stream_reduce :: "('a \<Rightarrow> 'a \<Rightarrow> 'a) \<Rightarrow> 'a Stream \<Rightarrow> error + 'a" where
  "Stream_reduce reducer s =
     (if begin_iter s < length (storage s)
        then reduce_loop reducer (storage s) (Suc (begin_iter s)) (end_iter s)
               (storage s ! begin_iter s)
      else Inl UndefinedBehaviour)"

text \<open>\<open>R reduce(R init, FReducer reducer)\<close>.\<close>

definition Stream_reduce_init :: "'r \<Rightarrow> ('r \<Rightarrow> 'a \<Rightarrow> 'r) \<Rightarrow> 'a Stream \<Rightarrow> error + 'r" where
  "Stream_reduce_init init reducer s =
     reduce_loop reducer (storage s) (begin_iter s) (end_iter s) init"

text \<open>\<open>bool any(FPredicate predicate)\<close>.\<close>

function any_loop :: "('a \<Rightarrow> bool) \<Rightarrow> 'a list \<Rightarrow> nat \<Rightarrow> nat \<Rightarrow> error + bool" where
  "any_loop predicate st iter e =
     (if iter = e then Inr False
      else if iter < length st
        then (if predicate (st ! iter) then Inr True
              else any_loop predicate st (Suc iter) e)
      else Inl UndefinedBehaviour)"
  by pat_completeness auto
termination
  by (relation "measure (\<lambda>(predicate, st, iter, e). length st - iter)") auto

declare any_loop.simps [simp del]

definition Stream_any :: "('a \<Rightarrow> bool) \<Rightarrow> 'a Stream \<Rightarrow> error + bool" where
  "Stream_any predicate s = any_loop predicate (storage s) (begin_iter s) (end_iter s)"

text \<open>\<open>bool all(FPredicate predicate)\<close>.\<close>

function all_loop :: "('a \<Rightarrow> bool) \<Rightarrow> 'a list \<Rightarrow> nat \<Rightarrow> nat \<Rightarrow> error + bool" where
  "all_loop predicate st iter e =
     (if iter = e then Inr True
      else if iter < length st
        then (if \<not> predicate (st ! iter) then Inr False
              else all_loop predicate st (Suc iter) e)
      else Inl UndefinedBehaviour)"
  by pat_completeness auto
termination
  by (relation "measure (\<lambda>(predicate, st, iter, e). length st - iter)") auto

declare all_loop.simps [simp del]

definition Stream_all :: "('a \<Rightarrow> bool) \<Rightarrow> 'a Stream \<Rightarrow> error + bool" where
  "Stream_all predicate s = all_loop predicate (storage s) (begin_iter s) (end_iter s)"

text \<open>
  \<open>RCollection collect()\<close>: a default-constructed result, then
  \<open>Collection<RCollection>::insert(result, *iter)\<close> for every position of the range.
\<close>

function collect_loop ::
  "('c, 'a) Collection \<Rightarrow> 'a list \<Rightarrow> nat \<Rightarrow> nat \<Rightarrow> 'c \<Rightarrow> error + 'c" where
  "collect_loop C st iter e result =
     (if iter = e then Inr result
      else if iter < length st
        then collect_loop C st (Suc iter) e (insert_value C result (st ! iter))
      else Inl UndefinedBehaviour)"
  by pat_completeness auto
termination
  by (relation "measure (\<lambda>(C, st, iter, e, result). length st - iter)") auto

declare collect_loop.simps [simp del]

definition Stream_collect :: "('c, 'a) Collection \<Rightarrow> 'a Stream \<Rightarrow> error + 'c" where
  "Stream_collect C s = collect_loop C (storage s) (begin_iter s) (end_iter s) (fresh C)"

section \<open>Materializing stages\<close>

text \<open>
  \<open>static RCollection Map::map(mapper, begin, end)\<close>. \<open>RCollection\<close> is
  \<open>Collection<TCollection>::WithValueType<R>\<close>: a \<open>std::vector<R>\<close> for a source handled
  by the primary template, a \<open>std::set<R>\<close> for a \<open>std::set\<close> source, a
  \<open>std::unordered_set<R>\<close> for a \<open>std::unordered_set\<close> source; \<open>RC\<close> is the adapter
  of that result container.
\<close>

function Map_map ::
  "('b list, 'b) Collection \<Rightarrow> ('a \<Rightarrow> 'b) \<Rightarrow> 'a list \<Rightarrow> nat \<Rightarrow> nat \<Rightarrow> 'b list \<Rightarrow> error + 'b list" where
  "Map_map RC mapper st iter e mapped =
     (if iter = e then Inr mapped
      else if iter < length st
        then Map_map RC mapper st (Suc iter) e (insert_value RC mapped (mapper (st ! iter)))
      else Inl UndefinedBehaviour)"
  by pat_completeness auto
termination
  by (relation "measure (\<lambda>(RC, mapper, st, iter, e, mapped). length st - iter)") auto

declare Map_map.simps [simp del]

text \<open>
  The constructor \<open>Map(mapper, begin, end)\<close>: the member \<open>mapped\<close> is built, and the
  stage's range is \<open>mapped.begin()\<close> to \<open>mapped.end()\<close>.
\<close>

definition Map :: "('b list, 'b) Collection \<Rightarrow> ('a \<Rightarrow> 'b) \<Rightarrow> 'a list \<Rightarrow> nat \<Rightarrow> nat \<Rightarrow> error + 'b Stream" where
  "Map RC mapper st b e =
     and_then (Map_map RC mapper st b e (fresh RC)) (\<lambda>mapped. Inr (Stream_of mapped))"

text \<open>\<open>Stream::map(mapper)\<close> passes the stage's own range to the constructor.\<close>

definition Stream_map :: "('b list, 'b) Collection \<Rightarrow> ('a \<Rightarrow> 'b) \<Rightarrow> 'a Stream \<Rightarrow> error + 'b Stream" where
  "Stream_map RC mapper s = Map RC mapper (storage s) (begin_iter s) (end_iter s)"

text \<open>
  \<open>static TCollection Filter::filter(predicate, begin, end)\<close>: the result container has
  the type of the source container, and \<open>TC\<close> is its adapter.
\<close>

function Filter_filter ::
  "('a list, 'a) Collection \<Rightarrow> ('a \<Rightarrow> bool) \<Rightarrow> 'a list \<Rightarrow> nat \<Rightarrow> nat \<Rightarrow> 'a list \<Rightarrow> error + 'a list" where
  "Filter_filter TC predicate st iter e filtered =
     (if iter = e then Inr filtered
      else if iter < length st
        then Filter_filter TC predicate st (Suc iter) e
               (if predicate (st ! iter) then insert_value TC filtered (st ! iter) else filtered)
      else Inl UndefinedBehaviour)"
  by pat_completeness auto
termination
  by (relation "measure (\<lambda>(TC, predicate, st, iter, e, filtered). length st - iter)") auto

declare Filter_filter.simps [simp del]

definition Filter :: "('a list, 'a) Collection \<Rightarrow> ('a \<Rightarrow> bool) \<Rightarrow> 'a list \<Rightarrow> nat \<Rightarrow> nat \<Rightarrow> error + 'a Stream" where
  "Filter TC predicate st b e =
     and_then (Filter_filter TC predicate st b e (fresh TC)) (\<lambda>filtered. Inr (Stream_of filtered))"

definition Stream_filter :: "('a list, 'a) Collection \<Rightarrow> ('a \<Rightarrow> bool) \<Rightarrow> 'a Stream \<Rightarrow> error + 'a Stream" where
  "Stream_filter TC predicate s = Filter TC predicate (storage s) (begin_iter s) (end_iter s)"

section \<open>Narrowing stages\<close>

text \<open>
  The loop of the constructors of \<open>Take\<close> and of \<open>Skip\<close>, written in both:
  \<open>for (usize i = 0; i < count && iter != end; ++i) { ++iter; }\<close>. The counter \<open>i\<close>
  stays below \<open>count\<close>, so it never wraps; \<open>count\<close> is a \<open>nat\<close>.
\<close>

function advance :: "'a list \<Rightarrow> nat \<Rightarrow> nat \<Rightarrow> nat \<Rightarrow> nat \<Rightarrow> error + nat" where
  "advance st count e i iter =
     (if i < count \<and> iter \<noteq> e
        then (if iter < length st then advance st count e (Suc i) (Suc iter)
              else Inl UndefinedBehaviour)
      else Inr iter)"
  by pat_completeness auto
termination
  by (relation "measure (\<lambda>(st, count, e, i, iter). count - i)") auto

declare advance.simps [simp del]

text \<open>\<open>Take(count, begin, end)\<close>: \<open>this->begin = begin; this->end = iter\<close>.\<close>

definition Take :: "nat \<Rightarrow> 'a list \<Rightarrow> nat \<Rightarrow> nat \<Rightarrow> error + 'a Stream" where
  "Take count st b e =
     and_then (advance st count e 0 b)
       (\<lambda>iter. Inr \<lparr>storage = st, begin_iter = b, end_iter = iter\<rparr>)"

definition Stream_take :: "nat \<Rightarrow> 'a Stream \<Rightarrow> error + 'a Stream" where
  "Stream_take count s = Take count (storage s) (begin_iter s) (end_iter s)"

text \<open>\<open>Skip(count, begin, end)\<close>: \<open>this->end = end; this->begin = iter\<close>.\<close>

definition Skip :: "nat \<Rightarrow> 'a list \<Rightarrow> nat \<Rightarrow> nat \<Rightarrow> error + 'a Stream" where
  "Skip count st b e =
     and_then (advance st count e 0 b)
       (\<lambda>iter. Inr \<lparr>storage = st, begin_iter = iter, end_iter = e\<rparr>)"

definition Stream_skip :: "nat \<Rightarrow> 'a Stream \<Rightarrow> error + 'a Stream" where
  "Stream_skip count s = Skip count (storage s) (begin_iter s) (end_iter s)"

text \<open>
  The loop of the constructors of \<open>TakeWhile\<close> and of \<open>SkipWhile\<close>, written in both:
  the position of the first element for which the predicate is false, or \<open>end\<close>.
\<close>

function scan :: "('a \<Rightarrow> bool) \<Rightarrow> 'a list \<Rightarrow> nat \<Rightarrow> nat \<Rightarrow> error + nat" where
  "scan predicate st iter e =
     (if iter = e then Inr e
      else if iter < length st
        then (if \<not> predicate (st ! iter) then Inr iter
              else scan predicate st (Suc iter) e)
      else Inl UndefinedBehaviour)"
  by pat_completeness auto
termination
  by (relation "measure (\<lambda>(predicate, st, iter, e). length st - iter)") auto

declare scan.simps [simp del]

definition TakeWhile :: "('a \<Rightarrow> bool) \<Rightarrow> 'a list \<Rightarrow> nat \<Rightarrow> nat \<Rightarrow> error + 'a Stream" where
  "TakeWhile predicate st b e =
     and_then (scan predicate st b e)
       (\<lambda>iter. Inr \<lparr>storage = st, begin_iter = b, end_iter = iter\<rparr>)"

definition Stream_takeWhile :: "('a \<Rightarrow> bool) \<Rightarrow> 'a Stream \<Rightarrow> error + 'a Stream" where
  "Stream_takeWhile predicate s = TakeWhile predicate (storage s) (begin_iter s) (end_iter s)"

definition SkipWhile :: "('a \<Rightarrow> bool) \<Rightarrow> 'a list \<Rightarrow> nat \<Rightarrow> nat \<Rightarrow> error + 'a Stream" where
  "SkipWhile predicate st b e =
     and_then (scan predicate st b e)
       (\<lambda>iter. Inr \<lparr>storage = st, begin_iter = iter, end_iter = e\<rparr>)"

definition Stream_skipWhile :: "('a \<Rightarrow> bool) \<Rightarrow> 'a Stream \<Rightarrow> error + 'a Stream" where
  "Stream_skipWhile predicate s = SkipWhile predicate (storage s) (begin_iter s) (end_iter s)"

section \<open>What a stage denotes\<close>

text \<open>
  The invariant of a sequence view: \<open>end\<close> is reachable from \<open>begin\<close> and both are
  positions of the storage (\<open>end\<close> possibly one past the last element).
\<close>

definition valid_view :: "'a Stream \<Rightarrow> bool" where
  "valid_view s \<longleftrightarrow> begin_iter s \<le> end_iter s \<and> end_iter s \<le> length (storage s)"

text \<open>The elements of the half-open range, in traversal order.\<close>

definition slice :: "'a list \<Rightarrow> nat \<Rightarrow> nat \<Rightarrow> 'a list" where
  "slice st b e = take (e - b) (drop b st)"

definition elements :: "'a Stream \<Rightarrow> 'a list" where
  "elements s = slice (storage s) (begin_iter s) (end_iter s)"

section \<open>Inputs of the worked examples\<close>

text \<open>The mapper \<open>x => x * x\<close> of the chained scenario.\<close>

definition square :: "int \<Rightarrow> int" where
  "square x = x * x"

section \<open>The loops, in terms of the range they walk\<close>

lemma slice_same: "slice st b b = []"
  by (simp add: slice_def)

lemma slice_step:
  assumes "b < e" and "e \<le> length st"
  shows "slice st b e = st ! b # slice st (Suc b) e"
proof -
  from assms have "drop b st = st ! b # drop (Suc b) st"
    by (simp add: Cons_nth_drop_Suc)
  moreover from assms have "e - b = Suc (e - Suc b)" by simp
  ultimately show ?thesis by (simp add: slice_def)
qed

lemma reduce_loop_slice:
  "iter \<le> e \<Longrightarrow> e \<le> length st \<Longrightarrow>
     reduce_loop reducer st iter e acc = Inr (foldl reducer acc (slice st iter e))"
proof (induction "e - iter" arbitrary: iter acc)
  case 0
  then show ?case by (simp add: reduce_loop.simps slice_same)
next
  case (Suc k)
  then have lt: "iter < e" and k: "k = e - Suc iter" by simp_all
  with Suc.prems have "iter < length st" by simp
  with lt Suc.hyps(1) [OF k] Suc.prems show ?case
    by (subst reduce_loop.simps) (simp add: slice_step)
qed

lemma reduce_loop_overrun:
  "e < iter \<Longrightarrow> reduce_loop reducer st iter e acc = Inl UndefinedBehaviour"
proof (induction "length st - iter" arbitrary: iter acc)
  case 0
  then show ?case by (subst reduce_loop.simps) simp
next
  case (Suc k)
  then show ?case by (subst reduce_loop.simps) simp
qed

lemma any_loop_slice:
  "iter \<le> e \<Longrightarrow> e \<le> length st \<Longrightarrow>
     any_loop p st iter e = Inr (\<exists>x \<in> set (slice st iter e). p x)"
proof (induction "e - iter" arbitrary: iter)
  case 0
  then show ?case by (simp add: any_loop.simps slice_same)
next
  case (Suc k)
  then have lt: "iter < e" and k: "k = e - Suc iter" by simp_all
  with Suc.prems have "iter < length st" by simp
  with lt Suc.hyps(1) [OF k] Suc.prems show ?case
    by (subst any_loop.simps) (simp add: slice_step)
qed

lemma all_loop_slice:
  "iter \<le> e \<Longrightarrow> e \<le> length st \<Longrightarrow>
     all_loop p st iter e = Inr (\<forall>x \<in> set (slice st iter e). p x)"
proof (induction "e - iter" arbitrary: iter)
  case 0
  then show ?case by (simp add: all_loop.simps slice_same)
next
  case (Suc k)
  then have lt: "iter < e" and k: "k = e - Suc iter" by simp_all
  with Suc.prems have "iter < length st" by simp
  with lt Suc.hyps(1) [OF k] Suc.prems show ?case
    by (subst all_loop.simps) (simp add: slice_step)
qed

lemma collect_loop_slice:
  "iter \<le> e \<Longrightarrow> e \<le> length st \<Longrightarrow>
     collect_loop C st iter e result = Inr (foldl (insert_value C) result (slice st iter e))"
proof (induction "e - iter" arbitrary: iter result)
  case 0
  then show ?case by (simp add: collect_loop.simps slice_same)
next
  case (Suc k)
  then have lt: "iter < e" and k: "k = e - Suc iter" by simp_all
  with Suc.prems have "iter < length st" by simp
  with lt Suc.hyps(1) [OF k] Suc.prems show ?case
    by (subst collect_loop.simps) (simp add: slice_step)
qed

lemma Map_map_slice:
  "iter \<le> e \<Longrightarrow> e \<le> length st \<Longrightarrow>
     Map_map RC f st iter e mapped =
       Inr (foldl (insert_value RC) mapped (map f (slice st iter e)))"
proof (induction "e - iter" arbitrary: iter mapped)
  case 0
  then show ?case by (simp add: Map_map.simps slice_same)
next
  case (Suc k)
  then have lt: "iter < e" and k: "k = e - Suc iter" by simp_all
  with Suc.prems have "iter < length st" by simp
  with lt Suc.hyps(1) [OF k] Suc.prems show ?case
    by (subst Map_map.simps) (simp add: slice_step)
qed

lemma Filter_filter_slice:
  "iter \<le> e \<Longrightarrow> e \<le> length st \<Longrightarrow>
     Filter_filter TC p st iter e filtered =
       Inr (foldl (insert_value TC) filtered (filter p (slice st iter e)))"
proof (induction "e - iter" arbitrary: iter filtered)
  case 0
  then show ?case by (simp add: Filter_filter.simps slice_same)
next
  case (Suc k)
  then have lt: "iter < e" and k: "k = e - Suc iter" by simp_all
  with Suc.prems have "iter < length st" by simp
  with lt Suc.hyps(1) [OF k] Suc.prems show ?case
    by (subst Filter_filter.simps) (simp add: slice_step)
qed

lemma advance_result:
  "iter \<le> e \<Longrightarrow> e \<le> length st \<Longrightarrow> i \<le> count \<Longrightarrow>
     advance st count e i iter = Inr (iter + min (count - i) (e - iter))"
proof (induction "count - i" arbitrary: i iter)
  case 0
  then show ?case by (subst advance.simps) simp
next
  case (Suc k)
  then have i: "i < count" and k: "k = count - Suc i" by simp_all
  show ?case
  proof (cases "iter = e")
    case True
    then show ?thesis by (subst advance.simps) simp
  next
    case False
    with Suc.prems have lt: "iter < e" "iter < length st" by simp_all
    from Suc.hyps(1) [OF k, of "Suc iter"] lt Suc.prems i
    have "advance st count e (Suc i) (Suc iter)
            = Inr (Suc iter + min (count - Suc i) (e - Suc iter))" by simp
    moreover from lt i
    have "Suc iter + min (count - Suc i) (e - Suc iter) = iter + min (count - i) (e - iter)"
      by arith
    ultimately show ?thesis using lt i False
      by (subst advance.simps) simp
  qed
qed

lemma scan_result:
  "iter \<le> e \<Longrightarrow> e \<le> length st \<Longrightarrow>
     scan p st iter e = Inr (iter + length (takeWhile p (slice st iter e)))"
proof (induction "e - iter" arbitrary: iter)
  case 0
  then show ?case by (simp add: scan.simps slice_same)
next
  case (Suc k)
  then have lt: "iter < e" and k: "k = e - Suc iter" by simp_all
  with Suc.prems have "iter < length st" by simp
  with lt Suc.hyps(1) [OF k] Suc.prems show ?case
    by (subst scan.simps) (simp add: slice_step)
qed

section \<open>The stages, in terms of the range they denote\<close>

lemma length_slice: "e \<le> length st \<Longrightarrow> length (slice st b e) = e - b"
  by (simp add: slice_def)

lemma slice_all: "slice st 0 (length st) = st"
  by (simp add: slice_def)

lemma slice_take: "slice st b (b + min n (e - b)) = take n (slice st b e)"
  by (simp add: slice_def min.commute)

lemma slice_drop: "slice st (b + min n (e - b)) e = drop n (slice st b e)"
proof -
  have "drop n (slice st b e) = take (e - b - n) (drop (b + n) st)"
    by (simp add: slice_def drop_take add.commute)
  also have "\<dots> = slice st (b + min n (e - b)) e"
    by (cases "n \<le> e - b") (simp_all add: slice_def min_def)
  finally show ?thesis by simp
qed

lemma valid_view_Stream_of: "valid_view (Stream_of xs)"
  by (simp add: valid_view_def Stream_of_def)

lemma elements_Stream_of: "elements (Stream_of xs) = xs"
  by (simp add: elements_def Stream_of_def slice_all)

lemma foldl_snoc: "foldl (\<lambda>c v. c @ [v]) acc xs = acc @ xs"
  by (induction xs arbitrary: acc) simp_all

lemma Stream_collect_vector:
  "valid_view s \<Longrightarrow> Stream_collect Collection_vector s = Inr (elements s)"
  by (simp add: Stream_collect_def valid_view_def collect_loop_slice elements_def
      Collection_vector_def foldl_snoc)

lemma Stream_map_vector:
  "valid_view s \<Longrightarrow> Stream_map Collection_vector f s = Inr (Stream_of (map f (elements s)))"
  by (simp add: Stream_map_def Map_def valid_view_def Map_map_slice elements_def
      Collection_vector_def foldl_snoc and_then_def)

lemma Stream_filter_vector:
  "valid_view s \<Longrightarrow>
     Stream_filter Collection_vector p s = Inr (Stream_of (filter p (elements s)))"
  by (simp add: Stream_filter_def Filter_def valid_view_def Filter_filter_slice elements_def
      Collection_vector_def foldl_snoc and_then_def)

lemma Stream_take_result:
  "valid_view s \<Longrightarrow>
     Stream_take n s =
       Inr (s\<lparr>end_iter := begin_iter s + min n (end_iter s - begin_iter s)\<rparr>)"
  by (simp add: Stream_take_def Take_def valid_view_def advance_result and_then_def)

lemma Stream_skip_result:
  "valid_view s \<Longrightarrow>
     Stream_skip n s =
       Inr (s\<lparr>begin_iter := begin_iter s + min n (end_iter s - begin_iter s)\<rparr>)"
  by (simp add: Stream_skip_def Skip_def valid_view_def advance_result and_then_def)

lemma Stream_takeWhile_result:
  "valid_view s \<Longrightarrow>
     Stream_takeWhile p s =
       Inr (s\<lparr>end_iter := begin_iter s + length (takeWhile p (elements s))\<rparr>)"
  by (simp add: Stream_takeWhile_def TakeWhile_def valid_view_def scan_result and_then_def
      elements_def)

lemma Stream_skipWhile_result:
  "valid_view s \<Longrightarrow>
     Stream_skipWhile p s =
       Inr (s\<lparr>begin_iter := begin_iter s + length (takeWhile p (elements s))\<rparr>)"
  by (simp add: Stream_skipWhile_def SkipWhile_def valid_view_def scan_result and_then_def
      elements_def)

lemma length_elements: "valid_view s \<Longrightarrow> length (elements s) = end_iter s - begin_iter s"
  by (simp add: elements_def valid_view_def length_slice)

lemma elements_take:
  "elements (s\<lparr>end_iter := begin_iter s + min n (end_iter s - begin_iter s)\<rparr>)
     = take n (elements s)"
  by (simp add: elements_def slice_take)

lemma elements_skip:
  "elements (s\<lparr>begin_iter := begin_iter s + min n (end_iter s - begin_iter s)\<rparr>)
     = drop n (elements s)"
  by (simp add: elements_def slice_drop)

lemma valid_view_take:
  "valid_view s \<Longrightarrow> valid_view (s\<lparr>end_iter := begin_iter s + min n (end_iter s - begin_iter s)\<rparr>)"
  by (auto simp: valid_view_def)

lemma valid_view_skip:
  "valid_view s \<Longrightarrow> valid_view (s\<lparr>begin_iter := begin_iter s + min n (end_iter s - begin_iter s)\<rparr>)"
  by (auto simp: valid_view_def)

lemma takeWhile_within:
  "valid_view s \<Longrightarrow>
     min (length (takeWhile p (elements s))) (end_iter s - begin_iter s)
       = length (takeWhile p (elements s))"
  using length_takeWhile_le [of p "elements s"] by (simp add: length_elements)

section \<open>Set-like containers\<close>

lemma foldl_insert_unordered_set:
  "foldl (insert_value Collection_unordered_set) A xs = A \<union> set xs"
  by (induction xs arbitrary: A) (simp_all add: Collection_unordered_set_def)

lemma insert_set_strict:
  assumes "sorted_wrt (<) c"
  shows "sorted_wrt (<) (insert_value Collection_set c v)
       \<and> set (insert_value Collection_set c v) = insert v (set c)"
  using assms
  by (auto simp: Collection_set_def strict_sorted_iff sorted_insort distinct_insort set_insort_key)

lemma foldl_insert_set:
  "sorted_wrt (<) c \<Longrightarrow>
     sorted_wrt (<) (foldl (insert_value Collection_set) c xs)
     \<and> set (foldl (insert_value Collection_set) c xs) = set c \<union> set xs"
proof (induction xs arbitrary: c)
  case Nil
  then show ?case by simp
next
  case (Cons x xs)
  from insert_set_strict [OF Cons.prems, of x] Cons.IH [of "insert_value Collection_set c x"]
  show ?case by simp
qed

lemma foldl_insert_set_ascending:
  "sorted_wrt (<) (c @ xs) \<Longrightarrow> foldl (insert_value Collection_set) c xs = c @ xs"
proof (induction xs arbitrary: c)
  case Nil
  then show ?case by simp
next
  case (Cons x xs)
  from Cons.prems have below: "\<forall>a \<in> set c. a < x" and c: "sorted_wrt (<) c"
    by (auto simp: sorted_wrt_append)
  from c have "sorted c" by (simp add: strict_sorted_iff)
  moreover from below have "\<forall>a \<in> set c. a \<le> x" by auto
  ultimately have "insort x c = c @ [x]" by (rule sorted_insort_is_snoc)
  moreover from below have "x \<notin> set c" by auto
  ultimately have "insert_value Collection_set c x = c @ [x]"
    by (simp add: Collection_set_def)
  with Cons.IH [of "c @ [x]"] Cons.prems show ?case by simp
qed

lemma sorted_wrt_slice: "sorted_wrt P st \<Longrightarrow> sorted_wrt P (slice st b e)"
  by (simp add: slice_def sorted_wrt_take sorted_wrt_drop)

lemma Stream_filter_set:
  assumes "valid_view s" and "sorted_wrt (<) (storage s)"
  shows "Stream_filter Collection_set p s = Inr (Stream_of (filter p (elements s)))"
proof -
  from assms(2) have "sorted_wrt (<) (filter p (elements s))"
    by (simp add: elements_def sorted_wrt_slice sorted_wrt_filter)
  then have "foldl (insert_value Collection_set) [] (filter p (elements s)) = filter p (elements s)"
    using foldl_insert_set_ascending [of "[]" "filter p (elements s)"] by simp
  moreover have "fresh Collection_set = ([] :: 'a list)" by (simp add: Collection_set_def)
  ultimately show ?thesis using assms(1)
    by (simp add: Stream_filter_def Filter_def valid_view_def Filter_filter_slice elements_def
        and_then_def)
qed

lemma Stream_map_set:
  assumes "valid_view s"
  shows "\<exists>m. Stream_map Collection_set f s = Inr (Stream_of m)
           \<and> sorted_wrt (<) m \<and> set m = f ` set (elements s)"
proof -
  let ?m = "foldl (insert_value Collection_set) [] (map f (elements s))"
  have "fresh Collection_set = ([] :: 'b list)" by (simp add: Collection_set_def)
  with assms have "Stream_map Collection_set f s = Inr (Stream_of ?m)"
    by (simp add: Stream_map_def Map_def valid_view_def Map_map_slice elements_def and_then_def)
  moreover from foldl_insert_set [of "[]" "map f (elements s)"]
  have "sorted_wrt (<) ?m" "set ?m = f ` set (elements s)" by simp_all
  ultimately show ?thesis by blast
qed

lemma Stream_collect_unordered_set:
  "valid_view s \<Longrightarrow> Stream_collect Collection_unordered_set s = Inr (set (elements s))"
  by (simp add: Stream_collect_def valid_view_def collect_loop_slice elements_def
      foldl_insert_unordered_set) (simp add: Collection_unordered_set_def)

lemma Stream_collect_set:
  assumes "valid_view s"
  shows "\<exists>ys. Stream_collect Collection_set s = Inr ys
           \<and> sorted_wrt (<) ys \<and> set ys = set (elements s)"
proof -
  have "fresh Collection_set = ([] :: 'a list)" by (simp add: Collection_set_def)
  with assms foldl_insert_set [of "[]" "elements s"] show ?thesis
    by (simp add: Stream_collect_def valid_view_def collect_loop_slice elements_def)
qed

lemma unordered_insertion_front: "unordered_insertion Collection_unordered_set_front"
  by (auto simp: unordered_insertion_def Collection_unordered_set_front_def)

lemma foldl_unordered_insertion:
  assumes "unordered_insertion H"
  shows "distinct c \<Longrightarrow>
     distinct (foldl (insert_value H) c xs)
     \<and> set (foldl (insert_value H) c xs) = set c \<union> set xs"
proof (induction xs arbitrary: c)
  case Nil
  then show ?case by simp
next
  case (Cons x xs)
  from assms Cons.prems
  have step: "distinct (insert_value H c x)" "set (insert_value H c x) = insert x (set c)"
    by (simp_all add: unordered_insertion_def)
  from Cons.IH [OF step(1)] step(2) show ?case by simp
qed

lemma distinct_slice: "distinct st \<Longrightarrow> distinct (slice st b e)"
  by (simp add: slice_def)

lemma Stream_filter_unordered:
  assumes "valid_view u" and "distinct (storage u)" and "unordered_insertion H"
  shows "\<exists>m. Stream_filter H r u = Inr (Stream_of m)
           \<and> distinct m
           \<and> set m = {x \<in> set (elements u). r x}
           \<and> length m = length (filter r (elements u))"
proof -
  let ?m = "foldl (insert_value H) [] (filter r (elements u))"
  from assms(3) have "fresh H = []" by (simp add: unordered_insertion_def)
  with assms(1) have run: "Stream_filter H r u = Inr (Stream_of ?m)"
    by (simp add: Stream_filter_def Filter_def valid_view_def Filter_filter_slice elements_def
        and_then_def)
  from foldl_unordered_insertion [OF assms(3), of "[]" "filter r (elements u)"]
  have d: "distinct ?m" and s: "set ?m = set (filter r (elements u))" by simp_all
  from assms(2) have "distinct (filter r (elements u))"
    by (simp add: elements_def distinct_slice)
  with d s have "length ?m = length (filter r (elements u))"
    by (metis distinct_card)
  with run d s show ?thesis by auto
qed

section \<open>Unseeded reduce\<close>

lemma Stream_reduce_nonempty:
  assumes "valid_view s" and "elements s \<noteq> []"
  shows "Stream_reduce reducer s = Inr (foldl reducer (hd (elements s)) (tl (elements s)))"
proof -
  from assms have lt: "begin_iter s < end_iter s"
    by (cases "begin_iter s = end_iter s") (simp_all add: valid_view_def elements_def slice_same)
  with assms(1) have e: "end_iter s \<le> length (storage s)" "begin_iter s < length (storage s)"
    by (simp_all add: valid_view_def)
  from lt e have "elements s = storage s ! begin_iter s # slice (storage s) (Suc (begin_iter s)) (end_iter s)"
    by (simp add: elements_def slice_step)
  with lt e show ?thesis
    by (simp add: Stream_reduce_def reduce_loop_slice)
qed

lemma Stream_reduce_empty:
  assumes "valid_view s" and "elements s = []"
  shows "Stream_reduce reducer s = Inl UndefinedBehaviour"
proof -
  from assms have "length (elements s) = 0" by simp
  with assms(1) have "begin_iter s = end_iter s"
    by (simp add: length_elements valid_view_def)
  then show ?thesis
    by (simp add: Stream_reduce_def reduce_loop_overrun)
qed

section \<open>Properties of the terminal operations\<close>

text \<open>
  C1. The unseeded \<open>reduce\<close> on an empty range: the code reads \<open>*begin\<close> without
  a check. On an empty vector that read is outside the storage; on the empty range that
  \<open>take(0)\<close> leaves over a non-empty vector the first read succeeds and the loop, whose
  iterator is already past \<open>end\<close>, walks to the end of the storage and reads there. In
  both cases the behaviour is undefined and no EmptySequence condition is reported. On the
  non-empty range \<open>[1, 2, 3, 4]\<close> the fold from the first element is returned.
\<close>

theorem reduce_empty_range_undefined:
  "Stream_reduce (+) (Stream_of ([] :: int list)) = Inl UndefinedBehaviour
   \<and> and_then (Stream_take 0 (Stream_of [1, 2, 3 :: int])) (Stream_reduce (+))
       = Inl UndefinedBehaviour
   \<and> Stream_reduce (+) (Stream_of [1, 2, 3, 4 :: int]) = Inr 10"
  by (simp add: Stream_reduce_def Stream_take_def Take_def Stream_of_def and_then_def
      advance.simps reduce_loop.simps)

text \<open>
  C6. On a valid view, \<open>reduce(init, reducer)\<close> returns the left fold of the range
  from \<open>init\<close>; on an empty range it returns \<open>init\<close>. It always returns a value.
\<close>

theorem reduce_init_is_fold:
  assumes "valid_view s"
  shows "Stream_reduce_init init reducer s = Inr (foldl reducer init (elements s))
       \<and> (elements s = [] \<longrightarrow> Stream_reduce_init init reducer s = Inr init)"
  using assms
  by (simp add: Stream_reduce_init_def valid_view_def reduce_loop_slice elements_def)

theorem reduce_init_is_fold_witness:
  "valid_view (Stream_of [1, 2, 3, 4 :: int])
   \<and> Stream_reduce_init 0 (+) (Stream_of [1, 2, 3, 4 :: int]) = Inr 10
   \<and> valid_view (Stream_of ([] :: int list))
   \<and> elements (Stream_of ([] :: int list)) = []
   \<and> Stream_reduce_init 0 (+) (Stream_of ([] :: int list)) = Inr 0"
  using reduce_init_is_fold [of "Stream_of [1, 2, 3, 4 :: int]" 0 "(+)"]
    reduce_init_is_fold [of "Stream_of ([] :: int list)" 0 "(+)"]
  by (simp add: valid_view_Stream_of elements_Stream_of)

text \<open>
  C8. On a valid view, \<open>any(p)\<close> is true exactly when some element of the range
  satisfies \<open>p\<close> and \<open>all(p)\<close> exactly when every element does; on an empty range
  \<open>any\<close> is false and \<open>all\<close> is true.
\<close>

theorem any_all_quantify:
  assumes "valid_view s"
  shows "Stream_any p s = Inr (\<exists>x \<in> set (elements s). p x)
       \<and> Stream_all p s = Inr (\<forall>x \<in> set (elements s). p x)
       \<and> (elements s = [] \<longrightarrow> Stream_any p s = Inr False \<and> Stream_all p s = Inr True)"
  using assms
  by (simp add: Stream_any_def Stream_all_def valid_view_def any_loop_slice all_loop_slice
      elements_def)

theorem any_all_quantify_witness:
  "valid_view (Stream_of [1, 2, 3 :: int])
   \<and> Stream_any (\<lambda>x. 2 < x) (Stream_of [1, 2, 3 :: int]) = Inr True
   \<and> Stream_all (\<lambda>x. 2 < x) (Stream_of [1, 2, 3 :: int]) = Inr False
   \<and> valid_view (Stream_of ([] :: int list))
   \<and> elements (Stream_of ([] :: int list)) = []
   \<and> Stream_any (\<lambda>x. 2 < x) (Stream_of ([] :: int list)) = Inr False
   \<and> Stream_all (\<lambda>x. 2 < x) (Stream_of ([] :: int list)) = Inr True"
  using any_all_quantify [of "Stream_of [1, 2, 3 :: int]" "\<lambda>x. 2 < x"]
    any_all_quantify [of "Stream_of ([] :: int list)" "\<lambda>x. 2 < x"]
  by (simp add: valid_view_Stream_of elements_Stream_of)

text \<open>
  C7. On a valid view, \<open>collect\<close> into a \<open>std::unordered_set\<close> yields the set of the
  elements of the range, and \<open>collect\<close> into a \<open>std::set\<close> yields those elements once
  each in ascending order, whatever the number of duplicates in the range. Collecting
  \<open>map([1, 1, 2, 2, 3], identity)\<close> gives \<open>{1, 2, 3}\<close> in both.
\<close>

theorem collect_into_sets:
  assumes "valid_view s" and "valid_view z"
  shows "Stream_collect Collection_unordered_set s = Inr (set (elements s))
       \<and> (\<exists>ys. Stream_collect Collection_set z = Inr ys
              \<and> sorted_wrt (<) ys \<and> set ys = set (elements z))
       \<and> and_then (Stream_map Collection_vector id (Stream_of [1, 1, 2, 2, 3 :: int]))
            (Stream_collect Collection_unordered_set) = Inr {1, 2, 3}
       \<and> and_then (Stream_map Collection_vector id (Stream_of [1, 1, 2, 2, 3 :: int]))
            (Stream_collect Collection_set) = Inr [1, 2, 3]"
proof -
  have a: "and_then (Stream_map Collection_vector id (Stream_of [1, 1, 2, 2, 3 :: int]))
            (Stream_collect Collection_unordered_set) = Inr {1, 2, 3}"
    by (auto simp add: Stream_map_def Map_def Stream_collect_def Stream_of_def and_then_def
      Map_map.simps collect_loop.simps Collection_unordered_set_def Collection_vector_def)
  have b: "and_then (Stream_map Collection_vector id (Stream_of [1, 1, 2, 2, 3 :: int]))
            (Stream_collect Collection_set) = Inr [1, 2, 3]"
    by (simp add: Stream_map_def Map_def Stream_collect_def Stream_of_def and_then_def
      Map_map.simps collect_loop.simps Collection_set_def Collection_vector_def)
  from assms a b show ?thesis
    by (simp add: Stream_collect_unordered_set Stream_collect_set)
qed

theorem collect_into_sets_witness:
  "valid_view (Stream_of [3, 1, 3, 2, 1, 1 :: int])
   \<and> Stream_collect Collection_unordered_set (Stream_of [3, 1, 3, 2, 1, 1 :: int]) = Inr {1, 2, 3}
   \<and> Stream_collect Collection_set (Stream_of [3, 1, 3, 2, 1, 1 :: int]) = Inr [1, 2, 3]"
proof -
  have "Stream_collect Collection_set (Stream_of [3, 1, 3, 2, 1, 1 :: int]) = Inr [1, 2, 3]"
    by (simp add: Stream_collect_def Stream_of_def collect_loop.simps Collection_set_def)
  with collect_into_sets [of "Stream_of [3, 1, 3, 2, 1, 1 :: int]"
      "Stream_of [3, 1, 3, 2, 1, 1 :: int]"]
  show ?thesis
    by (auto simp: valid_view_Stream_of elements_Stream_of)
qed

section \<open>Properties of the materializing stages\<close>

text \<open>
  C2, as stated, at a \<open>std::set\<close> source: the mapped storage of \<open>{-1, 1}\<close> under
  \<open>x => x * x\<close> is the \<open>std::set\<close> \<open>{1}\<close>, of length one, not two.
\<close>

theorem map_set_source_dedups:
  "and_then (Stream_map Collection_set square (Stream_of [- 1, 1]))
     (Stream_collect Collection_vector) = Inr [1]
   \<and> length [1 :: int] \<noteq> length [- 1, 1 :: int]"
  by (simp add: Stream_map_def Map_def Stream_collect_def Stream_of_def and_then_def
      Map_map.simps collect_loop.simps Collection_set_def Collection_vector_def square_def)

text \<open>
  C2, amended. On a valid view over a \<open>std::vector\<close> (a source of the primary
  \<open>Collection\<close> template) \<open>map(f)\<close> materializes, by appending, a sequence of the
  length of the range whose \<open>i\<close>-th element is \<open>f\<close> of the \<open>i\<close>-th element of the range,
  and \<open>collect\<close> into a vector returns it. On a valid view over a \<open>std::set\<close> the mapped
  storage is a \<open>std::set\<close>: the results without duplicates, in ascending order.
\<close>

theorem map_by_source_kind:
  assumes "valid_view s" and "valid_view z"
  shows "(\<exists>m ys. Stream_map Collection_vector f s = Inr m
            \<and> valid_view m
            \<and> elements m = map f (elements s)
            \<and> Stream_collect Collection_vector m = Inr ys
            \<and> length ys = length (elements s)
            \<and> (\<forall>i < length (elements s). ys ! i = f (elements s ! i)))
       \<and> (\<exists>m. Stream_map Collection_set g z = Inr m
            \<and> valid_view m
            \<and> sorted_wrt (<) (elements m)
            \<and> set (elements m) = g ` set (elements z))"
proof -
  let ?m = "Stream_of (map f (elements s))"
  from assms(1) have "Stream_map Collection_vector f s = Inr ?m"
    by (rule Stream_map_vector)
  moreover have "valid_view ?m" by (rule valid_view_Stream_of)
  moreover have "elements ?m = map f (elements s)" by (rule elements_Stream_of)
  moreover have "Stream_collect Collection_vector ?m = Inr (map f (elements s))"
    by (simp add: Stream_collect_vector valid_view_Stream_of elements_Stream_of)
  moreover have "length (map f (elements s)) = length (elements s)" by simp
  moreover have "\<forall>i < length (elements s). map f (elements s) ! i = f (elements s ! i)"
    by simp
  ultimately have vector: "\<exists>m ys. Stream_map Collection_vector f s = Inr m
            \<and> valid_view m
            \<and> elements m = map f (elements s)
            \<and> Stream_collect Collection_vector m = Inr ys
            \<and> length ys = length (elements s)
            \<and> (\<forall>i < length (elements s). ys ! i = f (elements s ! i))"
    by blast
  from Stream_map_set [OF assms(2), of g] obtain c where
    c: "Stream_map Collection_set g z = Inr (Stream_of c)" "sorted_wrt (<) c"
      "set c = g ` set (elements z)"
    by blast
  then have "\<exists>m. Stream_map Collection_set g z = Inr m
            \<and> valid_view m
            \<and> sorted_wrt (<) (elements m)
            \<and> set (elements m) = g ` set (elements z)"
    by (simp add: valid_view_Stream_of elements_Stream_of)
  with vector show ?thesis by blast
qed

theorem map_by_source_kind_witness:
  "valid_view (Stream_of [- 1, 1, 1 :: int])
   \<and> Stream_map Collection_vector square (Stream_of [- 1, 1, 1]) = Inr (Stream_of [1, 1, 1])
   \<and> Stream_collect Collection_vector (Stream_of [1, 1, 1 :: int]) = Inr [1, 1, 1]
   \<and> (2 :: nat) < length (elements (Stream_of [- 1, 1, 1 :: int]))
   \<and> [1, 1, 1 :: int] ! 2 = square (elements (Stream_of [- 1, 1, 1]) ! 2)
   \<and> valid_view (Stream_of [- 1, 1 :: int])
   \<and> Stream_map Collection_set square (Stream_of [- 1, 1]) = Inr (Stream_of [1])"
proof -
  have "Stream_map Collection_set square (Stream_of [- 1, 1]) = Inr (Stream_of [1])"
    by (simp add: Stream_map_def Map_def Stream_of_def and_then_def Map_map.simps
        Collection_set_def square_def)
  with map_by_source_kind [of "Stream_of [- 1, 1, 1 :: int]" "Stream_of [- 1, 1 :: int]"
      square square]
  show ?thesis
    by (simp add: valid_view_Stream_of elements_Stream_of Stream_map_vector
        Stream_collect_vector square_def)
qed

text \<open>
  C3, as stated, at a \<open>std::unordered_set\<close> source: collecting \<open>[1, 2, 3]\<close> into the
  hash set above gives the traversal \<open>[3, 2, 1]\<close>; \<open>filter\<close> with a predicate that holds
  of all three inserts them, in that order, into a new hash set, whose traversal is
  \<open>[1, 2, 3]\<close>: the elements kept are not in their relative order in the source.
\<close>

theorem filter_unordered_set_source_reorders:
  "Stream_collect Collection_unordered_set_front (Stream_of [1, 2, 3 :: int]) = Inr [3, 2, 1]
   \<and> and_then (Stream_filter Collection_unordered_set_front ((<) 0) (Stream_of [3, 2, 1 :: int]))
        (Stream_collect Collection_vector) = Inr [1, 2, 3]
   \<and> filter ((<) 0) [3, 2, 1 :: int] = [3, 2, 1]
   \<and> [1, 2, 3 :: int] \<noteq> [3, 2, 1]"
  by (simp add: Stream_filter_def Filter_def Stream_collect_def Stream_of_def and_then_def
      Filter_filter.simps collect_loop.simps Collection_unordered_set_front_def
      Collection_vector_def)

text \<open>
  C3, amended. On a valid view over a \<open>std::vector\<close>, and on a valid view over a
  \<open>std::set\<close> (a strictly ascending storage), \<open>filter(p)\<close> materializes exactly the
  elements of the range that satisfy \<open>p\<close>, in the order of the range, and \<open>collect\<close>
  returns them; their number is the number of elements of the range that satisfy \<open>p\<close>.
  On a valid view over a \<open>std::unordered_set\<close> (distinct keys, any traversal order of
  the hash table) the filtered storage holds exactly the elements of the range that
  satisfy \<open>p\<close>, each once, so as many as satisfy \<open>p\<close>, in the traversal order of the new
  hash set, and \<open>collect\<close> into a vector returns them in that order.
\<close>

theorem filter_keeps_matching_in_order:
  assumes "valid_view s" and "valid_view z" and "sorted_wrt (<) (storage z)"
  shows "(\<exists>m ys. Stream_filter Collection_vector p s = Inr m
            \<and> valid_view m
            \<and> elements m = filter p (elements s)
            \<and> Stream_collect Collection_vector m = Inr ys
            \<and> ys = filter p (elements s)
            \<and> set ys = {x \<in> set (elements s). p x}
            \<and> length ys = length (filter p (elements s)))
       \<and> (\<exists>m ys. Stream_filter Collection_set q z = Inr m
            \<and> valid_view m
            \<and> elements m = filter q (elements z)
            \<and> Stream_collect Collection_vector m = Inr ys
            \<and> ys = filter q (elements z))
       \<and> (valid_view u \<and> distinct (storage u) \<and> unordered_insertion H \<longrightarrow>
            (\<exists>m ys. Stream_filter H r u = Inr m
               \<and> valid_view m
               \<and> distinct (elements m)
               \<and> set (elements m) = {x \<in> set (elements u). r x}
               \<and> length (elements m) = length (filter r (elements u))
               \<and> Stream_collect Collection_vector m = Inr ys
               \<and> ys = elements m))"
proof -
  let ?m = "Stream_of (filter p (elements s))"
  from assms(1) have "Stream_filter Collection_vector p s = Inr ?m"
    by (rule Stream_filter_vector)
  moreover have "valid_view ?m" by (rule valid_view_Stream_of)
  moreover have "elements ?m = filter p (elements s)" by (rule elements_Stream_of)
  moreover have "Stream_collect Collection_vector ?m = Inr (filter p (elements s))"
    by (simp add: Stream_collect_vector valid_view_Stream_of elements_Stream_of)
  moreover have "set (filter p (elements s)) = {x \<in> set (elements s). p x}" by simp
  ultimately have vector: "\<exists>m ys. Stream_filter Collection_vector p s = Inr m
            \<and> valid_view m
            \<and> elements m = filter p (elements s)
            \<and> Stream_collect Collection_vector m = Inr ys
            \<and> ys = filter p (elements s)
            \<and> set ys = {x \<in> set (elements s). p x}
            \<and> length ys = length (filter p (elements s))"
    by blast
  let ?n = "Stream_of (filter q (elements z))"
  from assms(2,3) have "Stream_filter Collection_set q z = Inr ?n"
    by (rule Stream_filter_set)
  moreover have "valid_view ?n" by (rule valid_view_Stream_of)
  moreover have "elements ?n = filter q (elements z)" by (rule elements_Stream_of)
  moreover have "Stream_collect Collection_vector ?n = Inr (filter q (elements z))"
    by (simp add: Stream_collect_vector valid_view_Stream_of elements_Stream_of)
  ultimately have ordered: "\<exists>m ys. Stream_filter Collection_set q z = Inr m
            \<and> valid_view m
            \<and> elements m = filter q (elements z)
            \<and> Stream_collect Collection_vector m = Inr ys
            \<and> ys = filter q (elements z)"
    by blast
  have unordered: "\<exists>m ys. Stream_filter H r u = Inr m
               \<and> valid_view m
               \<and> distinct (elements m)
               \<and> set (elements m) = {x \<in> set (elements u). r x}
               \<and> length (elements m) = length (filter r (elements u))
               \<and> Stream_collect Collection_vector m = Inr ys
               \<and> ys = elements m"
    if h: "valid_view u" "distinct (storage u)" "unordered_insertion H"
  proof -
    from Stream_filter_unordered [OF h, of r] obtain c where
      c: "Stream_filter H r u = Inr (Stream_of c)" "distinct c"
        "set c = {x \<in> set (elements u). r x}" "length c = length (filter r (elements u))"
      by blast
    moreover have "valid_view (Stream_of c)" by (rule valid_view_Stream_of)
    moreover have "elements (Stream_of c) = c" by (rule elements_Stream_of)
    moreover have "Stream_collect Collection_vector (Stream_of c) = Inr c"
      by (simp add: Stream_collect_vector valid_view_Stream_of elements_Stream_of)
    ultimately show ?thesis by (metis (no_types, lifting))
  qed
  from vector ordered unordered show ?thesis by blast
qed

theorem filter_keeps_matching_in_order_witness:
  "valid_view (Stream_of [3, 4, 4, 1, 6 :: int])
   \<and> Stream_filter Collection_vector even (Stream_of [3, 4, 4, 1, 6 :: int])
       = Inr (Stream_of [4, 4, 6])
   \<and> Stream_collect Collection_vector (Stream_of [4, 4, 6 :: int]) = Inr [4, 4, 6]
   \<and> valid_view (Stream_of [1, 2, 4 :: int])
   \<and> sorted_wrt (<) (storage (Stream_of [1, 2, 4 :: int]))
   \<and> Stream_filter Collection_set even (Stream_of [1, 2, 4 :: int]) = Inr (Stream_of [2, 4])
   \<and> valid_view (Stream_of [3, 2, 1 :: int])
   \<and> distinct (storage (Stream_of [3, 2, 1 :: int]))
   \<and> unordered_insertion (Collection_unordered_set_front :: (int list, int) Collection)
   \<and> Stream_filter Collection_unordered_set_front ((<) 0) (Stream_of [3, 2, 1 :: int])
       = Inr (Stream_of [1, 2, 3])
   \<and> distinct (elements (Stream_of [1, 2, 3 :: int]))
   \<and> length (elements (Stream_of [1, 2, 3 :: int]))
       = length (filter ((<) 0) (elements (Stream_of [3, 2, 1 :: int])))"
proof -
  have a: "sorted_wrt (<) (storage (Stream_of [1, 2, 4 :: int]))"
    by (simp add: Stream_of_def)
  have b: "distinct (storage (Stream_of [3, 2, 1 :: int]))"
    by (simp add: Stream_of_def)
  have c: "Stream_filter Collection_unordered_set_front ((<) 0) (Stream_of [3, 2, 1 :: int])
       = Inr (Stream_of [1, 2, 3])"
    by (simp add: Stream_filter_def Filter_def Stream_of_def and_then_def
        Filter_filter.simps Collection_unordered_set_front_def)
  from a b c filter_keeps_matching_in_order [of "Stream_of [3, 4, 4, 1, 6 :: int]"
      "Stream_of [1, 2, 4 :: int]" even even "Stream_of [3, 2, 1 :: int]"
      Collection_unordered_set_front "(<) 0"]
  show ?thesis
    by (simp add: valid_view_Stream_of elements_Stream_of Stream_filter_vector
        Stream_collect_vector Stream_filter_set unordered_insertion_front)
qed

section \<open>Properties of the narrowing stages\<close>

text \<open>
  C5. On a valid view, \<open>take(n)\<close> narrows to the first \<open>min(n, length)\<close> elements and
  \<open>skip(n)\<close> to the elements after them, over the same storage; \<open>take(0)\<close> and
  \<open>skip(length)\<close> give an empty range, \<open>take(n)\<close> with \<open>n\<close> at least the length and
  \<open>skip(0)\<close> give the stage unchanged.
\<close>

theorem take_skip_counts:
  assumes "valid_view s"
  shows "(\<exists>t u. Stream_take n s = Inr t \<and> Stream_skip n s = Inr u
            \<and> valid_view t \<and> valid_view u
            \<and> storage t = storage s \<and> storage u = storage s
            \<and> begin_iter t = begin_iter s \<and> end_iter u = end_iter s
            \<and> elements t = take (min n (length (elements s))) (elements s)
            \<and> elements u = drop (min n (length (elements s))) (elements s))
       \<and> (\<exists>t. Stream_take 0 s = Inr t \<and> elements t = [])
       \<and> (\<exists>u. Stream_skip (length (elements s)) s = Inr u \<and> elements u = [])
       \<and> (length (elements s) \<le> n \<longrightarrow> Stream_take n s = Inr s)
       \<and> Stream_skip 0 s = Inr s"
proof -
  have a: "\<exists>t u. Stream_take n s = Inr t \<and> Stream_skip n s = Inr u
            \<and> valid_view t \<and> valid_view u
            \<and> storage t = storage s \<and> storage u = storage s
            \<and> begin_iter t = begin_iter s \<and> end_iter u = end_iter s
            \<and> elements t = take (min n (length (elements s))) (elements s)
            \<and> elements u = drop (min n (length (elements s))) (elements s)"
  proof -
    let ?t = "s\<lparr>end_iter := begin_iter s + min n (end_iter s - begin_iter s)\<rparr>"
    let ?u = "s\<lparr>begin_iter := begin_iter s + min n (end_iter s - begin_iter s)\<rparr>"
    have "take (min n (length (elements s))) (elements s) = take n (elements s)"
      by (cases "n \<le> length (elements s)") simp_all
    then have t: "elements ?t = take (min n (length (elements s))) (elements s)"
      by (simp only: elements_take)
    have "drop (min n (length (elements s))) (elements s) = drop n (elements s)"
      by (cases "n \<le> length (elements s)") simp_all
    then have u: "elements ?u = drop (min n (length (elements s))) (elements s)"
      by (simp only: elements_skip)
    from assms have "Stream_take n s = Inr ?t" "Stream_skip n s = Inr ?u"
      by (simp_all only: Stream_take_result Stream_skip_result)
    moreover from assms have "valid_view ?t" "valid_view ?u"
      by (simp_all only: valid_view_take valid_view_skip)
    moreover have "storage ?t = storage s" "storage ?u = storage s"
      "begin_iter ?t = begin_iter s" "end_iter ?u = end_iter s" by simp_all
    ultimately show ?thesis using t u by blast
  qed
  have b: "\<exists>t. Stream_take 0 s = Inr t \<and> elements t = []"
    using assms elements_take [of s 0] by (simp add: Stream_take_result)
  have c: "\<exists>u. Stream_skip (length (elements s)) s = Inr u \<and> elements u = []"
    using assms elements_skip [of s "length (elements s)"] by (simp add: Stream_skip_result)
  have d: "length (elements s) \<le> n \<longrightarrow> Stream_take n s = Inr s"
    using assms by (simp add: Stream_take_result length_elements valid_view_def min_def)
  have e: "Stream_skip 0 s = Inr s"
    using assms by (simp add: Stream_skip_result)
  from a b c d e show ?thesis by blast
qed

theorem take_skip_counts_witness:
  "valid_view (Stream_of [10, 20, 30 :: int])
   \<and> Stream_take 2 (Stream_of [10, 20, 30 :: int])
       = Inr \<lparr>storage = [10, 20, 30], begin_iter = 0, end_iter = 2\<rparr>
   \<and> Stream_skip 2 (Stream_of [10, 20, 30 :: int])
       = Inr \<lparr>storage = [10, 20, 30], begin_iter = 2, end_iter = 3\<rparr>
   \<and> elements \<lparr>storage = [10, 20, 30 :: int], begin_iter = 0, end_iter = 2\<rparr> = [10, 20]
   \<and> elements \<lparr>storage = [10, 20, 30 :: int], begin_iter = 2, end_iter = 3\<rparr> = [30]
   \<and> length (elements (Stream_of [10, 20, 30 :: int])) \<le> 5
   \<and> Stream_take 5 (Stream_of [10, 20, 30 :: int]) = Inr (Stream_of [10, 20, 30])"
  using take_skip_counts [of "Stream_of [10, 20, 30 :: int]" 2]
    take_skip_counts [of "Stream_of [10, 20, 30 :: int]" 5]
  by (simp add: valid_view_Stream_of elements_Stream_of)
    (simp add: Stream_take_def Take_def Stream_skip_def Skip_def Stream_of_def and_then_def
      advance.simps elements_def slice_def)

text \<open>
  C10. On a valid view, \<open>take(n)\<close> ends where \<open>skip(n)\<close> begins: the first is a
  prefix of the range, the second the complementary suffix, and their concatenation is the
  range.
\<close>

theorem take_skip_partition:
  assumes "valid_view s"
  shows "\<exists>t u. Stream_take n s = Inr t \<and> Stream_skip n s = Inr u
            \<and> end_iter t = begin_iter u
            \<and> elements t = take n (elements s)
            \<and> elements u = drop n (elements s)
            \<and> elements t @ elements u = elements s"
  using assms
  by (simp add: Stream_take_result Stream_skip_result elements_take elements_skip)

theorem take_skip_partition_witness:
  "valid_view (Stream_of [10, 20, 30 :: int])
   \<and> Stream_take 1 (Stream_of [10, 20, 30 :: int])
       = Inr \<lparr>storage = [10, 20, 30], begin_iter = 0, end_iter = 1\<rparr>
   \<and> Stream_skip 1 (Stream_of [10, 20, 30 :: int])
       = Inr \<lparr>storage = [10, 20, 30], begin_iter = 1, end_iter = 3\<rparr>
   \<and> elements \<lparr>storage = [10, 20, 30 :: int], begin_iter = 0, end_iter = 1\<rparr>
       @ elements \<lparr>storage = [10, 20, 30 :: int], begin_iter = 1, end_iter = 3\<rparr>
       = elements (Stream_of [10, 20, 30])"
  using take_skip_partition [of "Stream_of [10, 20, 30 :: int]" 1]
  by (simp add: valid_view_Stream_of elements_Stream_of)
    (simp add: Stream_take_def Take_def Stream_skip_def Skip_def Stream_of_def and_then_def
      advance.simps elements_def slice_def)

text \<open>
  C4. On a valid view, \<open>takeWhile(p)\<close> is the longest prefix of the range whose
  elements all satisfy \<open>p\<close>, \<open>skipWhile(p)\<close> is the rest, which starts at the first
  element that fails \<open>p\<close> and is empty when none does, and their concatenation is the
  range.
\<close>

theorem takeWhile_skipWhile_partition:
  assumes "valid_view s"
  shows "\<exists>t u. Stream_takeWhile p s = Inr t \<and> Stream_skipWhile p s = Inr u
            \<and> valid_view t \<and> valid_view u
            \<and> storage t = storage s \<and> storage u = storage s
            \<and> begin_iter t = begin_iter s \<and> end_iter t = begin_iter u
            \<and> end_iter u = end_iter s
            \<and> elements t = takeWhile p (elements s)
            \<and> elements u = dropWhile p (elements s)
            \<and> (\<forall>x \<in> set (elements t). p x)
            \<and> (elements u \<noteq> [] \<longrightarrow> \<not> p (hd (elements u)))
            \<and> ((\<forall>x \<in> set (elements s). p x) \<longrightarrow> elements u = [])
            \<and> elements t @ elements u = elements s"
proof -
  let ?k = "length (takeWhile p (elements s))"
  let ?t = "s\<lparr>end_iter := begin_iter s + ?k\<rparr>"
  let ?u = "s\<lparr>begin_iter := begin_iter s + ?k\<rparr>"
  have k: "min ?k (end_iter s - begin_iter s) = ?k"
    using assms by (rule takeWhile_within)
  have t: "elements ?t = takeWhile p (elements s)"
    using elements_take [of s ?k] by (simp add: k takeWhile_eq_take [symmetric])
  have u: "elements ?u = dropWhile p (elements s)"
    using elements_skip [of s ?k] by (simp add: k dropWhile_eq_drop [symmetric])
  have vt: "valid_view ?t" using valid_view_take [OF assms, of ?k] by (simp add: k)
  have vu: "valid_view ?u" using valid_view_skip [OF assms, of ?k] by (simp add: k)
  have all_t: "\<forall>x \<in> set (takeWhile p (elements s)). p x"
    by (auto dest: set_takeWhileD)
  have hd_u: "dropWhile p (elements s) \<noteq> [] \<longrightarrow> \<not> p (hd (dropWhile p (elements s)))"
    by (simp add: hd_dropWhile)
  have none: "(\<forall>x \<in> set (elements s). p x) \<longrightarrow> dropWhile p (elements s) = []"
    by simp
  from assms t u vt vu all_t hd_u none show ?thesis
    by (simp add: Stream_takeWhile_result Stream_skipWhile_result)
qed

theorem takeWhile_skipWhile_partition_witness:
  "valid_view (Stream_of [2, 4, 5, 6 :: int])
   \<and> Stream_takeWhile even (Stream_of [2, 4, 5, 6 :: int])
       = Inr \<lparr>storage = [2, 4, 5, 6], begin_iter = 0, end_iter = 2\<rparr>
   \<and> Stream_skipWhile even (Stream_of [2, 4, 5, 6 :: int])
       = Inr \<lparr>storage = [2, 4, 5, 6], begin_iter = 2, end_iter = 4\<rparr>
   \<and> elements \<lparr>storage = [2, 4, 5, 6 :: int], begin_iter = 0, end_iter = 2\<rparr> = [2, 4]
   \<and> elements \<lparr>storage = [2, 4, 5, 6 :: int], begin_iter = 2, end_iter = 4\<rparr> = [5, 6]
   \<and> \<not> even (hd [5, 6 :: int])
   \<and> valid_view (Stream_of [2, 4 :: int])
   \<and> elements (Stream_of [2, 4 :: int]) = [2, 4] \<and> even (2 :: int) \<and> even (4 :: int)
   \<and> Stream_skipWhile even (Stream_of [2, 4 :: int])
       = Inr \<lparr>storage = [2, 4], begin_iter = 2, end_iter = 2\<rparr>
   \<and> elements \<lparr>storage = [2, 4 :: int], begin_iter = 2, end_iter = 2\<rparr> = []"
  using takeWhile_skipWhile_partition [of "Stream_of [2, 4, 5, 6 :: int]" even]
    takeWhile_skipWhile_partition [of "Stream_of [2, 4 :: int]" even]
  by (simp add: valid_view_Stream_of elements_Stream_of)
    (simp add: Stream_takeWhile_def TakeWhile_def Stream_skipWhile_def SkipWhile_def
      Stream_of_def and_then_def scan.simps elements_def slice_def)

section \<open>A chained pipeline\<close>

text \<open>
  C9. \<open>[1..10]\<close>, \<open>filter(even)\<close>, \<open>map(x => x * x)\<close>, \<open>take(2)\<close>, \<open>collect\<close> into a
  vector: \<open>[4, 16]\<close>.
\<close>

theorem chained_pipeline:
  "and_then
     (and_then
        (and_then (Stream_filter Collection_vector even (Stream_of [1, 2, 3, 4, 5, 6, 7, 8, 9, 10 :: int]))
           (Stream_map Collection_vector square))
        (Stream_take 2))
     (Stream_collect Collection_vector) = Inr [4, 16]"
  by (simp add: Stream_filter_def Filter_def Stream_map_def Map_def Stream_take_def Take_def
      Stream_collect_def Stream_of_def and_then_def Filter_filter.simps Map_map.simps
      advance.simps collect_loop.simps Collection_vector_def square_def)

end
